theory Spec2Isabelle
  imports Complex_Main
begin

section \<open>Python floats\<close>

text \<open>
  A Python float is an IEEE 754 binary64 number. Every finite one is a rational, so
  the model computes on \<^typ>\<open>rat\<close> and rounds after each operation: to the nearest
  number with a 53-bit significand, a tie going to the even significand. Below
  \<open>2 ^ (- 1022)\<close> the spacing stays \<open>2 ^ (- 1074)\<close> (subnormals). Overflow to
  infinity is left out: the values of this program stay below 2 in magnitude. The
  two zeros are one value, as they are for Python's \<open>==\<close> and \<open>!=\<close>.
\<close>

fun bits :: "nat \<Rightarrow> nat" where
  "bits n = (if n = 0 then 0 else Suc (bits (n div 2)))"

declare bits.simps [simp del]

definition pow2 :: "int \<Rightarrow> rat" where
  "pow2 e = (if 0 \<le> e then 2 ^ nat e else 1 / 2 ^ nat (- e))"

text \<open>The exponent of a non-zero \<open>x\<close>: the \<open>e\<close> with \<open>2 ^ e \<le> \<bar>x\<bar> < 2 ^ (e + 1)\<close>.\<close>

definition ilog2 :: "rat \<Rightarrow> int" where
  "ilog2 x = (let a = \<bar>x\<bar>;
                  d = (if 1 \<le> a then int (bits (nat \<lfloor>a\<rfloor>)) - 1
                       else 1 - int (bits (nat \<lfloor>1 / a\<rfloor>)))
              in if pow2 d \<le> a then d else d - 1)"

definition round_half_even :: "rat \<Rightarrow> int" where
  "round_half_even q = (let n = \<lfloor>q\<rfloor>; r = q - of_int n
     in if r < 1 / 2 then n else if 1 / 2 < r then n + 1
        else if even n then n else n + 1)"

definition binary64 :: "rat \<Rightarrow> rat" where
  "binary64 x = (if x = 0 then 0
     else let e = max (ilog2 x) (- 1022); ulp = pow2 (e - 52)
          in of_int (round_half_even (x / ulp)) * ulp)"

text \<open>\<open>x - y\<close> on floats. A decimal literal \<open>d\<close> of the source is \<open>binary64 d\<close>.\<close>

definition fsub :: "rat \<Rightarrow> rat \<Rightarrow> rat" where
  "fsub x y = binary64 (x - y)"

section \<open>Motors, log records and the primitive effects of the program\<close>

text \<open>
  \<open>self.motor\<close> holds \<open>kit.motor1\<close> under the key \<open>"body"\<close> and \<open>kit.motor2\<close> under
  \<open>"mouth"\<close>, inserted in that order.
\<close>

datatype axis = Body | Mouth

definition motor_items :: "(string \<times> axis) list" where
  "motor_items = [(''body'', Body), (''mouth'', Mouth)]"

text \<open>
  The exceptions of the program: the \<open>ValueError\<close> of \<open>__enter__\<close>, a failure of the
  motor library on a throttle write, the \<open>RuntimeError\<close> of \<open>Thread.start\<close> on a
  thread that was started before, and the \<open>AttributeError\<close> of reading \<open>self.exec\<close>
  before \<open>__enter__\<close> has set it.
\<close>

datatype error = Task_does_not_exist | Motor_failure | Thread_already_started | No_exec

datatype level = Debug | Info | Error

text \<open>The log records, one constructor for each \<open>logger\<close> call of the class.\<close>

datatype message =
    Thread_initialized
  | Task_initialized string
  | Releasing_motor rat
  | Responding_to_trigger
  | Responding_to_query
  | Greeting_user
  | Dancing_to_playlist
  | Opening_mouth
  | Moving_body
  | Moving_tail
  | Executing
  | Exception_text error
  | Thread_finished
  | Running_motor axis rat "rat list"
  | Resetting_motors

text \<open>
  What a method does, in order: \<open>motor.throttle = v\<close>, \<open>time.sleep(d)\<close> and the
  \<open>logger\<close> calls. The same values record what has been done.
\<close>

datatype op = Set_throttle axis rat | Sleep rat | Log level message

section \<open>The actions\<close>

definition release_motor :: "rat \<Rightarrow> op list" where
  "release_motor sensitivity = [Log Debug (Releasing_motor sensitivity), Sleep sensitivity]"

primrec for_steps :: "axis \<Rightarrow> rat \<Rightarrow> rat list \<Rightarrow> op list" where
  "for_steps motor sensitivity [] = []"
| "for_steps motor sensitivity (step # steps) =
     Set_throttle motor step # release_motor sensitivity @ for_steps motor sensitivity steps"

definition run_motor :: "axis \<Rightarrow> rat \<Rightarrow> rat list \<Rightarrow> op list" where
  "run_motor motor sensitivity steps =
     Log Debug (Running_motor motor sensitivity steps) # for_steps motor sensitivity steps"

definition move_mouth :: "op list" where
  "move_mouth = Log Debug Opening_mouth # run_motor Mouth (binary64 (1 / 10)) [1, - 1, 0]"

definition move_head :: "op list" where
  "move_head = Log Debug Moving_body # run_motor Body 1 [0, - 1]"

definition move_tail :: "op list" where
  "move_tail = Log Debug Moving_tail # run_motor Body 1 [0, 1, 0]"

definition trigger :: "op list" where
  "trigger = Log Debug Responding_to_trigger # move_head @ move_mouth"

definition response :: "op list" where
  "response = Log Debug Responding_to_query # move_mouth"

definition dance :: "op list" where
  "dance = Log Debug Dancing_to_playlist # move_head @ [Sleep 1] @ move_tail"

definition reset_motors :: "op list" where
  "reset_motors =
     Log Debug Resetting_motors # map (\<lambda>(motor_name, motor_object). Set_throttle motor_object 0) motor_items"

text \<open>
  The loop of \<open>greet\<close>, \<open>while i != -1.0: i -= .2; steps.append(i)\<close>. It compares
  floats for equality, so it ends only if the running value hits \<open>-1.0\<close> exactly:
  not returning is \<open>None\<close>.
\<close>

partial_function (option) greet_loop :: "rat \<Rightarrow> rat list \<Rightarrow> rat list option" where
  "greet_loop i steps =
     (if i \<noteq> - 1
      then greet_loop (fsub i (binary64 (1 / 5))) (steps @ [fsub i (binary64 (1 / 5))])
      else Some steps)"

definition greet :: "op list option" where
  "greet = (case greet_loop 1 [] of
              None \<Rightarrow> None
            | Some steps \<Rightarrow>
                Some (Log Debug Greeting_user # run_motor Mouth (binary64 (1 / 20)) steps
                      @ [Set_throttle Mouth 0]))"

text \<open>The bound method that \<open>__enter__\<close> stores in \<open>self.exec\<close>, and calling it.\<close>

datatype action =
  Greet | Move_head | Move_tail | Move_mouth | Trigger | Response | Dance | Reset_motors

fun call :: "action \<Rightarrow> op list option" where
  "call Greet = greet"
| "call Move_head = Some move_head"
| "call Move_tail = Some move_tail"
| "call Move_mouth = Some move_mouth"
| "call Trigger = Some trigger"
| "call Response = Some response"
| "call Dance = Some dance"
| "call Reset_motors = Some reset_motors"

section \<open>The runner and its thread\<close>

text \<open>
  The background thread is at one of these points of \<open>run\<close>: not started; inside the
  loop with the listed effects left before the next test of \<open>self.done\<close> (none left:
  at the test); inside an action that never returns; returned from \<open>run\<close>; or left
  \<open>run\<close> by the exception that its handler logged and raised again.
\<close>

datatype thread = Unstarted | Active "op list" | Hung | Exited | Raised error

record runner =
  task :: string
  done_flag :: bool
  exec :: "action option"
  thread :: thread

text \<open>
  What lies outside the object: the throttle of each motor, everything done so far,
  and the motor library's failures: \<open>fault w n\<close> says that throttle write number
  \<open>n\<close> (from 0) raises, \<open>attempts\<close> counts the writes tried.
\<close>

record world =
  throttle :: "axis \<Rightarrow> rat"
  trace :: "op list"
  fault :: "nat \<Rightarrow> bool"
  attempts :: nat

definition emit :: "op \<Rightarrow> world \<Rightarrow> world" where
  "emit x w = w\<lparr>trace := trace w @ [x]\<rparr>"

definition init :: "string \<Rightarrow> world \<Rightarrow> runner \<times> world" where
  "init t w =
     (\<lparr>task = t, done_flag = False, exec = None, thread = Unstarted\<rparr>,
      emit (Log Info Thread_initialized) w)"

definition resolve :: "string \<Rightarrow> action option" where
  "resolve t =
     (if t = ''greet'' then Some Greet
      else if t = ''move_head'' then Some Move_head
      else if t = ''move_tail'' then Some Move_tail
      else if t = ''move_mouth'' then Some Move_mouth
      else if t = ''trigger'' then Some Trigger
      else if t = ''response'' then Some Response
      else if t = ''dance'' then Some Dance
      else if t = ''reset'' then Some Reset_motors
      else None)"

text \<open>\<open>Thread.start\<close>: the new thread begins \<open>run\<close>, whose first statement logs.\<close>

definition start :: "runner \<times> world \<Rightarrow> (error + unit) \<times> runner \<times> world" where
  "start s = (case s of (r, w) \<Rightarrow>
     if thread r \<noteq> Unstarted then (Inl Thread_already_started, r, w)
     else (Inr (), r\<lparr>thread := Active [Log Debug Executing]\<rparr>, w))"

definition enter :: "runner \<times> world \<Rightarrow> (error + unit) \<times> runner \<times> world" where
  "enter s = (case s of (r, w) \<Rightarrow>
     (case resolve (task r) of
        None \<Rightarrow> (Inl Task_does_not_exist, r, w)
      | Some a \<Rightarrow> start (r\<lparr>exec := Some a\<rparr>, emit (Log Debug (Task_initialized (task r))) w)))"

definition stop :: "runner \<times> world \<Rightarrow> runner \<times> world" where
  "stop s = (case s of (r, w) \<Rightarrow> (r\<lparr>done_flag := True\<rparr>, emit (Log Debug Thread_finished) w))"

definition exit :: "runner \<times> world \<Rightarrow> runner \<times> world" where
  "exit s = stop s"

text \<open>One effect of the thread. A throttle write that fails changes no throttle.\<close>

fun perform :: "op \<Rightarrow> world \<Rightarrow> (error + unit) \<times> world" where
  "perform (Set_throttle a v) w =
     (if fault w (attempts w) then (Inl Motor_failure, w\<lparr>attempts := Suc (attempts w)\<rparr>)
      else (Inr (), emit (Set_throttle a v)
                      (w\<lparr>throttle := (throttle w)(a := v), attempts := Suc (attempts w)\<rparr>)))"
| "perform (Sleep d) w = (Inr (), emit (Sleep d) w)"
| "perform (Log l m) w = (Inr (), emit (Log l m) w)"

text \<open>
  One step of the thread in \<open>run\<close>. At the loop test it reads \<open>self.done\<close> and, when
  unset, enters \<open>self.exec()\<close> followed by \<open>time.sleep(.2)\<close>; elsewhere it performs
  the next effect. An exception reaches the handler of \<open>run\<close>, which logs it and
  raises it again: the thread is over.
\<close>

definition raise_in_run :: "error \<Rightarrow> runner \<times> world \<Rightarrow> runner \<times> world" where
  "raise_in_run e s = (case s of (r, w) \<Rightarrow>
     (r\<lparr>thread := Raised e\<rparr>, emit (Log Error (Exception_text e)) w))"

definition run_step :: "runner \<times> world \<Rightarrow> runner \<times> world" where
  "run_step s = (case s of (r, w) \<Rightarrow>
     (case thread r of
        Active [] \<Rightarrow>
          if done_flag r then (r\<lparr>thread := Exited\<rparr>, w)
          else (case exec r of
                  None \<Rightarrow> raise_in_run No_exec (r, w)
                | Some a \<Rightarrow>
                    (case call a of
                       None \<Rightarrow> (r\<lparr>thread := Hung\<rparr>, w)
                     | Some ops \<Rightarrow> (r\<lparr>thread := Active (ops @ [Sleep (binary64 (1 / 5))])\<rparr>, w)))
      | Active (x # xs) \<Rightarrow>
          (case perform x w of
             (Inl e, w') \<Rightarrow> raise_in_run e (r, w')
           | (Inr u, w') \<Rightarrow> (r\<lparr>thread := Active xs\<rparr>, w'))
      | _ \<Rightarrow> (r, w)))"

text \<open>
  The caller and the thread take turns in any order: a schedule lists whose turn it
  is, the thread's for one step or the caller's for a call of \<open>stop\<close>.
\<close>

datatype turn = Thread_step | Caller_stop

primrec run_schedule :: "turn list \<Rightarrow> runner \<times> world \<Rightarrow> runner \<times> world" where
  "run_schedule [] s = s"
| "run_schedule (t # ts) s =
     run_schedule ts (case t of Thread_step \<Rightarrow> run_step s | Caller_stop \<Rightarrow> stop s)"

text \<open>The task names of the specification's closed enumeration.\<close>

definition task_names :: "string list" where
  "task_names = [''greet'', ''move_head'', ''move_tail'', ''move_mouth'', ''trigger'',
                 ''response'', ''dance'', ''reset'']"

text \<open>The throttle values written to one motor, and a throttle value within range.\<close>

fun written :: "axis \<Rightarrow> op list \<Rightarrow> rat list" where
  "written a [] = []"
| "written a (Set_throttle b v # xs) = (if a = b then v # written a xs else written a xs)"
| "written a (x # xs) = written a xs"

fun in_range :: "op \<Rightarrow> bool" where
  "in_range (Set_throttle a v) = (- 1 \<le> v \<and> v \<le> 1)"
| "in_range x = True"

fun commands :: "op list \<Rightarrow> op list" where
  "commands [] = []"
| "commands (Log l m # xs) = commands xs"
| "commands (x # xs) = x # commands xs"

text \<open>
  What every state reached from a fresh runner satisfies when no throttle value out of
  range has been written before: none has been written since, and none is pending.
\<close>

definition all_in_range :: "runner \<times> world \<Rightarrow> bool" where
  "all_in_range s = (case s of (r, w) \<Rightarrow>
     list_all in_range (trace w)
     \<and> (case thread r of Active ops \<Rightarrow> list_all in_range ops | _ \<Rightarrow> True))"

section \<open>Sample states\<close>

text \<open>
  A world whose motors stand at one half and never fail, one whose next throttle
  write fails, and runners at different points of their life.
\<close>

definition quiet_world :: world where
  "quiet_world = \<lparr>throttle = (\<lambda>a. 1 / 2), trace = [], fault = (\<lambda>n. False), attempts = 0\<rparr>"

definition failing_world :: world where
  "failing_world = \<lparr>throttle = (\<lambda>a. 1 / 2), trace = [], fault = (\<lambda>n. n = 1), attempts = 1\<rparr>"

definition head_runner :: runner where
  "head_runner = \<lparr>task = ''move_head'', done_flag = True, exec = Some Move_head,
                   thread = Active [Set_throttle Body (- 1), Sleep 1]\<rparr>"

definition mouth_runner :: runner where
  "mouth_runner = \<lparr>task = ''response'', done_flag = False, exec = Some Response,
                    thread = Active [Set_throttle Mouth (- 1), Sleep 1]\<rparr>"

definition stopped_runner :: runner where
  "stopped_runner = \<lparr>task = ''move_head'', done_flag = True, exec = Some Move_head,
                      thread = Exited\<rparr>"

definition greet_runner :: runner where
  "greet_runner = \<lparr>task = ''greet'', done_flag = False, exec = Some Greet, thread = Active []\<rparr>"

definition reset_runner :: runner where
  "reset_runner = \<lparr>task = ''reset'', done_flag = False, exec = Some Reset_motors,
                    thread = Active []\<rparr>"

definition unentered_runner :: runner where
  "unentered_runner = \<lparr>task = ''greet'', done_flag = False, exec = None, thread = Active []\<rparr>"

section \<open>Evaluating floats\<close>

text \<open>
  The floor of a quotient of numerals is computed on the integers; with it the
  simplifier evaluates \<open>binary64\<close> on numerals.
\<close>

lemma floor_rat_numeral_div:
  "\<lfloor>numeral a / numeral b :: rat\<rfloor> = numeral a div numeral b"
  "\<lfloor>- (numeral a / numeral b) :: rat\<rfloor> = - numeral a div numeral b"
  "\<lfloor>1 / numeral b :: rat\<rfloor> = 1 div numeral b"
  using floor_divide_of_int_eq [of "numeral a" "numeral b", where ?'a = rat]
    floor_divide_of_int_eq [of "- numeral a" "numeral b", where ?'a = rat]
    floor_divide_of_int_eq [of 1 "numeral b", where ?'a = rat]
  by simp_all

lemmas binary64_eval = binary64_def ilog2_def pow2_def round_half_even_def fsub_def
  bits.simps Let_def floor_rat_numeral_div

text \<open>
  The literals \<open>.2\<close>, \<open>0.05\<close> and \<open>0.1\<close> of the source.
\<close>

lemma float_0_2: "binary64 (1 / 5) = 3602879701896397 / 2 ^ 54"
  by (simp add: binary64_eval)

lemma float_0_05: "binary64 (1 / 20) = 3602879701896397 / 2 ^ 56"
  by (simp add: binary64_eval)

lemma float_0_1: "binary64 (1 / 10) = 3602879701896397 / 2 ^ 55"
  by (simp add: binary64_eval)

text \<open>
  The loop of \<open>greet\<close> returns: the tenth subtraction gives \<open>-1.0\<close> exactly. The
  values on the way are not the decimals 0.8, 0.6, ...: the fifth is \<open>2 ^ (- 54)\<close>, not 0.
\<close>

lemma greet_loop_value:
  "greet_loop 1 [] =
     Some [3602879701896397 / 2 ^ 52, 1351079888211149 / 2 ^ 51, 7205759403792795 / 2 ^ 54,
           1801439850948199 / 2 ^ 53, 1 / 2 ^ 54, - (900719925474099 / 2 ^ 52),
           - (7205759403792793 / 2 ^ 54), - (5404319552844595 / 2 ^ 53),
           - (3602879701896397 / 2 ^ 52), - 1]"
  by (simp add: greet_loop.simps binary64_eval)

lemma greet_value:
  "greet = Some (Log Debug Greeting_user
       # run_motor Mouth (binary64 (1 / 20))
           [3602879701896397 / 2 ^ 52, 1351079888211149 / 2 ^ 51, 7205759403792795 / 2 ^ 54,
            1801439850948199 / 2 ^ 53, 1 / 2 ^ 54, - (900719925474099 / 2 ^ 52),
            - (7205759403792793 / 2 ^ 54), - (5404319552844595 / 2 ^ 53),
            - (3602879701896397 / 2 ^ 52), - 1]
       @ [Set_throttle Mouth 0])"
  unfolding greet_def greet_loop_value by simp

lemma call_total: "\<exists>ops. call a = Some ops"
  by (cases a) (simp_all add: greet_value)

section \<open>Throttle values of the actions\<close>

lemma for_steps_in_range:
  "\<forall>v\<in>set steps. - 1 \<le> v \<and> v \<le> 1 \<Longrightarrow> \<forall>x\<in>set (for_steps motor sensitivity steps). in_range x"
  by (induction steps) (simp_all add: release_motor_def)

lemma run_motor_in_range:
  "\<forall>v\<in>set steps. - 1 \<le> v \<and> v \<le> 1 \<Longrightarrow> \<forall>x\<in>set (run_motor motor sensitivity steps). in_range x"
  using for_steps_in_range [of steps motor sensitivity] by (simp add: run_motor_def)

lemma move_mouth_in_range: "\<forall>x\<in>set move_mouth. in_range x"
  using run_motor_in_range [of "[1, - 1, 0]" Mouth "binary64 (1 / 10)"] by (simp add: move_mouth_def)

lemma move_head_in_range: "\<forall>x\<in>set move_head. in_range x"
  using run_motor_in_range [of "[0, - 1]" Body 1] by (simp add: move_head_def)

lemma move_tail_in_range: "\<forall>x\<in>set move_tail. in_range x"
  using run_motor_in_range [of "[0, 1, 0]" Body 1] by (simp add: move_tail_def)

lemma greet_in_range: "greet = Some ops \<Longrightarrow> \<forall>x\<in>set ops. in_range x"
  using run_motor_in_range [of
      "[3602879701896397 / 2 ^ 52, 1351079888211149 / 2 ^ 51, 7205759403792795 / 2 ^ 54,
        1801439850948199 / 2 ^ 53, 1 / 2 ^ 54, - (900719925474099 / 2 ^ 52),
        - (7205759403792793 / 2 ^ 54), - (5404319552844595 / 2 ^ 53),
        - (3602879701896397 / 2 ^ 52), - 1]" Mouth "binary64 (1 / 20)"]
  by (auto simp add: greet_value)

lemma call_in_range: "call a = Some ops \<Longrightarrow> \<forall>x\<in>set ops. in_range x"
proof (cases a)
  case Greet
  assume "call a = Some ops"
  with Greet show ?thesis by (simp add: greet_in_range)
next
  case Move_head
  assume "call a = Some ops"
  with Move_head show ?thesis using move_head_in_range by auto
next
  case Move_tail
  assume "call a = Some ops"
  with Move_tail show ?thesis using move_tail_in_range by auto
next
  case Move_mouth
  assume "call a = Some ops"
  with Move_mouth show ?thesis using move_mouth_in_range by auto
next
  case Trigger
  assume "call a = Some ops"
  with Trigger show ?thesis
    using move_head_in_range move_mouth_in_range by (auto simp add: trigger_def)
next
  case Response
  assume "call a = Some ops"
  with Response show ?thesis
    using move_mouth_in_range by (auto simp add: response_def)
next
  case Dance
  assume "call a = Some ops"
  with Dance show ?thesis
    using move_head_in_range move_tail_in_range by (auto simp add: dance_def)
next
  case Reset_motors
  assume "call a = Some ops"
  with Reset_motors show ?thesis
    by (auto simp add: reset_motors_def motor_items_def)
qed

section \<open>How the thread runs\<close>

lemma run_step_at_test_done:
  "thread r = Active [] \<Longrightarrow> done_flag r \<Longrightarrow> run_step (r, w) = (r\<lparr>thread := Exited\<rparr>, w)"
  by (simp add: run_step_def)

lemma run_step_at_test_call:
  "thread r = Active [] \<Longrightarrow> \<not> done_flag r \<Longrightarrow> exec r = Some a \<Longrightarrow> call a = Some ops \<Longrightarrow>
   run_step (r, w) = (r\<lparr>thread := Active (ops @ [Sleep (binary64 (1 / 5))])\<rparr>, w)"
  by (simp add: run_step_def)

lemma run_step_over:
  "thread r = Unstarted \<or> thread r = Hung \<or> thread r = Exited \<or> thread r = Raised e \<Longrightarrow>
   run_step (r, w) = (r, w)"
  by (auto simp add: run_step_def)

lemma run_steps_over:
  "thread r = Unstarted \<or> thread r = Hung \<or> thread r = Exited \<or> thread r = Raised e \<Longrightarrow>
   (run_step ^^ n) (r, w) = (r, w)"
  by (induction n) (simp_all add: run_step_over)

lemma perform_ok:
  "\<not> fault w (attempts w) \<Longrightarrow> fst (perform x w) = Inr ()"
  by (cases x) simp_all

lemma perform_trace:
  "fst (perform x w) = Inr () \<Longrightarrow> trace (snd (perform x w)) = trace w @ [x]"
  by (cases x) (simp_all add: emit_def split: if_splits)

lemma perform_fault [simp]: "fault (snd (perform x w)) = fault w"
  by (cases x) (simp_all add: emit_def)

lemma perform_attempts: "attempts w \<le> attempts (snd (perform x w))"
  by (cases x) (simp_all add: emit_def)

lemma run_step_effect:
  "thread r = Active (x # xs) \<Longrightarrow> fst (perform x w) = Inr () \<Longrightarrow>
   run_step (r, w) = (r\<lparr>thread := Active xs\<rparr>, snd (perform x w))"
  by (cases "perform x w") (simp add: run_step_def)

lemma run_step_raise:
  "thread r = Active (x # xs) \<Longrightarrow> fst (perform x w) = Inl e \<Longrightarrow>
   run_step (r, w) = (r\<lparr>thread := Raised e\<rparr>, emit (Log Error (Exception_text e)) (snd (perform x w)))"
  by (cases "perform x w") (simp add: run_step_def raise_in_run_def)

text \<open>
  Without a failing write, the thread performs the effects it has left, in order.
\<close>

lemma run_steps_effects:
  "thread r = Active (xs @ ys) \<Longrightarrow> \<forall>n\<ge>attempts w. \<not> fault w n \<Longrightarrow>
   \<exists>w'. (run_step ^^ length xs) (r, w) = (r\<lparr>thread := Active ys\<rparr>, w')
        \<and> trace w' = trace w @ xs \<and> fault w' = fault w \<and> attempts w \<le> attempts w'"
proof (induction xs arbitrary: r w)
  case Nil
  then show ?case by (cases r) simp
next
  case (Cons x xs)
  let ?w = "snd (perform x w)"
  let ?r = "r\<lparr>thread := Active (xs @ ys)\<rparr>"
  have ok: "fst (perform x w) = Inr ()"
    using Cons.prems(2) by (simp add: perform_ok)
  have one: "run_step (r, w) = (?r, ?w)"
    using Cons.prems(1) ok by (simp add: run_step_effect)
  have le: "attempts w \<le> attempts ?w"
    by (rule perform_attempts)
  have "\<forall>n\<ge>attempts ?w. \<not> fault ?w n"
    using Cons.prems(2) le by simp
  with Cons.IH [of ?r ?w]
  obtain w' where w': "(run_step ^^ length xs) (?r, ?w) = (?r\<lparr>thread := Active ys\<rparr>, w')"
    "trace w' = trace ?w @ xs" "fault w' = fault ?w" "attempts ?w \<le> attempts w'"
    by auto
  have "(run_step ^^ length (x # xs)) (r, w) = (r\<lparr>thread := Active ys\<rparr>, w')"
    using one w'(1) by (simp add: funpow_swap1)
  moreover have "trace w' = trace w @ x # xs"
    using w'(2) ok by (simp add: perform_trace)
  ultimately show ?case
    using w'(3,4) le by auto
qed

text \<open>
  With or without one, it gets through them or is ended by an exception.
\<close>

lemma run_steps_progress:
  "thread r = Active (xs @ ys) \<Longrightarrow>
   \<exists>r' w'. (run_step ^^ length xs) (r, w) = (r', w')
          \<and> (thread r' = Active ys \<or> (\<exists>e. thread r' = Raised e))
          \<and> done_flag r' = done_flag r"
proof (induction xs arbitrary: r w)
  case Nil
  then show ?case by simp
next
  case (Cons x xs)
  show ?case
  proof (cases "fst (perform x w)")
    case (Inl e)
    then have one: "run_step (r, w)
        = (r\<lparr>thread := Raised e\<rparr>, emit (Log Error (Exception_text e)) (snd (perform x w)))"
      using Cons.prems by (simp add: run_step_raise)
    have "(run_step ^^ length (x # xs)) (r, w) = (run_step ^^ length xs) (run_step (r, w))"
      by (simp add: funpow_swap1)
    also have "\<dots> = (r\<lparr>thread := Raised e\<rparr>, emit (Log Error (Exception_text e)) (snd (perform x w)))"
      unfolding one by (rule run_steps_over) simp
    finally show ?thesis by simp
  next
    case (Inr u)
    then have one: "run_step (r, w) = (r\<lparr>thread := Active (xs @ ys)\<rparr>, snd (perform x w))"
      using Cons.prems by (simp add: run_step_effect)
    from Cons.IH [of "r\<lparr>thread := Active (xs @ ys)\<rparr>" "snd (perform x w)"]
    show ?thesis
      using one by (simp add: funpow_swap1)
  qed
qed

lemma run_steps_attempts:
  "attempts (snd ((run_step ^^ n) (r, w))) \<le> attempts w + n"
proof (induction n arbitrary: r w)
  case 0
  then show ?case by simp
next
  case (Suc n)
  obtain r1 w1 where one: "run_step (r, w) = (r1, w1)"
    by (cases "run_step (r, w)")
  have "attempts w1 \<le> Suc (attempts w)"
  proof (cases "thread r")
    case (Active ops)
    show ?thesis
    proof (cases ops)
      case Nil
      with Active one show ?thesis
        by (auto simp add: run_step_def raise_in_run_def emit_def split: if_splits option.splits)
    next
      case (Cons x xs)
      with Active one show ?thesis
        by (cases x) (auto simp add: run_step_def raise_in_run_def emit_def split: if_splits)
    qed
  qed (use one in \<open>auto simp add: run_step_def\<close>)
  moreover have "attempts (snd ((run_step ^^ n) (r1, w1))) \<le> attempts w1 + n"
    by (rule Suc.IH)
  ultimately show ?case
    using one by (simp add: funpow_swap1)
qed

text \<open>
  The range invariant holds after \<open>__enter__\<close> and is kept by every turn.
\<close>

lemma all_in_range_stop: "all_in_range s \<Longrightarrow> all_in_range (stop s)"
  by (cases s) (simp add: all_in_range_def stop_def emit_def)

lemma all_in_range_run_step: "all_in_range s \<Longrightarrow> all_in_range (run_step s)"
proof (cases s)
  case (Pair r w)
  assume inv: "all_in_range s"
  show ?thesis
  proof (cases "thread r")
    case (Active ops)
    show ?thesis
    proof (cases ops)
      case Nil
      show ?thesis
      proof (cases "done_flag r")
        case True
        with Pair Active Nil inv show ?thesis
          by (simp add: all_in_range_def run_step_def)
      next
        case False
        show ?thesis
        proof (cases "exec r")
          case None
          with Pair Active Nil False inv show ?thesis
            by (simp add: all_in_range_def run_step_def raise_in_run_def emit_def)
        next
          case (Some a)
          obtain ops' where ops': "call a = Some ops'"
            using call_total by blast
          then have "list_all in_range ops'"
            using call_in_range by (simp add: list_all_iff)
          with Pair Active Nil False Some ops' inv show ?thesis
            by (simp add: all_in_range_def run_step_def)
        qed
      qed
    next
      case (Cons x xs)
      with Pair Active inv show ?thesis
        by (cases x)
          (simp_all add: all_in_range_def run_step_def raise_in_run_def emit_def)
    qed
  qed (use Pair inv in \<open>simp_all add: all_in_range_def run_step_def\<close>)
qed

lemma all_in_range_run_schedule:
  "all_in_range s \<Longrightarrow> all_in_range (run_schedule sched s)"
proof (induction sched arbitrary: s)
  case Nil
  then show ?case by simp
next
  case (Cons t ts)
  then show ?case
    by (cases t) (simp_all add: all_in_range_run_step all_in_range_stop)
qed

lemma all_in_range_enter:
  "list_all in_range (trace w) \<Longrightarrow> all_in_range (snd (enter (init t w)))"
  by (simp add: all_in_range_def enter_def init_def start_def emit_def split: option.splits)

lemma resolve_None: "resolve t = None \<longleftrightarrow> t \<notin> set task_names"
  by (simp add: resolve_def task_names_def)

text \<open>How a step that raises leaves the thread and the world.\<close>

lemma written_append: "written a (xs @ ys) = written a xs @ written a ys"
  by (induction a xs rule: written.induct) simp_all

lemma perform_failure:
  "fst (perform x w) = Inl e \<Longrightarrow>
   trace (snd (perform x w)) = trace w \<and> throttle (snd (perform x w)) = throttle w"
  by (cases x) (simp_all split: if_splits)

text \<open>A thread that an exception has ended stays so, whatever the caller does.\<close>

lemma raised_run_schedule:
  "thread r = Raised e \<Longrightarrow>
   thread (fst (run_schedule sched (r, w))) = Raised e
   \<and> written a (trace (snd (run_schedule sched (r, w)))) = written a (trace w)
   \<and> throttle (snd (run_schedule sched (r, w))) = throttle w"
proof (induction sched arbitrary: r w)
  case Nil
  then show ?case by simp
next
  case (Cons t ts)
  show ?case
  proof (cases t)
    case Thread_step
    have "run_step (r, w) = (r, w)"
      using Cons.prems by (simp add: run_step_over)
    with Thread_step Cons.IH [OF Cons.prems, of w] show ?thesis
      by simp
  next
    case Caller_stop
    let ?r = "r\<lparr>done_flag := True\<rparr>"
    let ?w = "emit (Log Debug Thread_finished) w"
    have st: "stop (r, w) = (?r, ?w)"
      by (simp add: stop_def)
    have "thread ?r = Raised e"
      using Cons.prems by simp
    from Cons.IH [OF this, of ?w] st Caller_stop show ?thesis
      by (simp add: emit_def written_append)
  qed
qed

lemma raise_outcome:
  assumes "run_step (r, w) = (r\<lparr>thread := Raised e\<rparr>, emit (Log Error (Exception_text e)) w0)"
    and "trace w0 = trace w" and "throttle w0 = throttle w"
  shows "thread (fst (run_step (r, w))) = Raised e
     \<and> trace (snd (run_step (r, w))) = trace w @ [Log Error (Exception_text e)]
     \<and> (run_step ^^ n) (run_step (r, w)) = run_step (r, w)
     \<and> thread (fst (run_schedule sched (run_step (r, w)))) = Raised e
     \<and> written a (trace (snd (run_schedule sched (run_step (r, w))))) = written a (trace w)
     \<and> throttle (snd (run_schedule sched (run_step (r, w)))) = throttle w"
proof -
  let ?r = "r\<lparr>thread := Raised e\<rparr>"
  let ?w = "emit (Log Error (Exception_text e)) w0"
  have th: "thread ?r = Raised e"
    by simp
  have "(run_step ^^ n) (?r, ?w) = (?r, ?w)"
    by (rule run_steps_over) simp
  moreover have "trace ?w = trace w @ [Log Error (Exception_text e)]"
    using assms(2) by (simp add: emit_def)
  moreover have "written a (trace ?w) = written a (trace w)"
    using assms(2) by (simp add: emit_def written_append)
  moreover have "throttle ?w = throttle w"
    using assms(3) by (simp add: emit_def)
  ultimately show ?thesis
    using raised_run_schedule [OF th, of sched ?w a] assms(1) by simp
qed

section \<open>The claims\<close>

subsection \<open>C1: the throttle sequence of greet\<close>

text \<open>
  The claimed sequence 1.0, 0.8, ..., -0.8, then 0 is not what \<open>greet\<close> writes, whether
  the claimed values are read as exact decimals or as the floats nearest to them: the
  loop subtracts before it appends, so 1.0 is never written and -1.0 is.
\<close>

theorem greet_sequence_counterexample:
  "map_option (written Mouth) greet
     \<noteq> Some ([1, 4 / 5, 3 / 5, 2 / 5, 1 / 5, 0, - (1 / 5), - (2 / 5), - (3 / 5), - (4 / 5)] @ [0])
   \<and> map_option (written Mouth) greet
     \<noteq> Some (map binary64 [1, 4 / 5, 3 / 5, 2 / 5, 1 / 5, 0, - (1 / 5), - (2 / 5), - (3 / 5), - (4 / 5)]
             @ [0])"
  by (simp add: greet_value run_motor_def release_motor_def binary64_eval)

text \<open>
  Claim C1, as the code has it. One call of \<open>greet\<close> writes to the mouth motor the ten
  floats obtained by subtracting \<open>.2\<close> from 1.0 one to ten times, each subtracted before
  it is recorded: 0.8, then values within \<open>2 ^ (- 52)\<close> of 0.6, 0.4, 0.2, 0.0, -0.2, -0.4,
  -0.6, -0.8, and last -1.0 exactly, where the loop stops. Each of the ten is followed
  by a sleep of 0.05 s; then the mouth throttle is set to 0, with no sleep after it.
  The body motor is not written.
\<close>

theorem greet_sequence:
  "\<exists>ops. greet = Some ops
     \<and> written Mouth ops =
         [3602879701896397 / 2 ^ 52, 1351079888211149 / 2 ^ 51, 7205759403792795 / 2 ^ 54,
          1801439850948199 / 2 ^ 53, 1 / 2 ^ 54, - (900719925474099 / 2 ^ 52),
          - (7205759403792793 / 2 ^ 54), - (5404319552844595 / 2 ^ 53),
          - (3602879701896397 / 2 ^ 52), - 1, 0]
     \<and> list_all2 (\<lambda>v d. \<bar>v - d\<bar> \<le> 1 / 2 ^ 52) (written Mouth ops)
         [4 / 5, 3 / 5, 2 / 5, 1 / 5, 0, - (1 / 5), - (2 / 5), - (3 / 5), - (4 / 5), - 1, 0]
     \<and> written Body ops = []
     \<and> commands ops =
         concat (map (\<lambda>v. [Set_throttle Mouth v, Sleep (binary64 (1 / 20))])
           (butlast (written Mouth ops))) @ [Set_throttle Mouth 0]"
  by (simp add: greet_value run_motor_def release_motor_def)

subsection \<open>C2: one call of an action terminates\<close>

text \<open>
  Claim C2. The loop that builds the step list of \<open>greet\<close> returns, with ten steps. For
  every task of the enumeration, the action that \<open>__enter__\<close> resolved is a finite list of
  effects, and a thread at the loop test with the flag unset is, after one step for
  each of them, back from the action and before the sleep of 0.2 s, or has been ended
  by an exception; it has tried no more throttle writes than it made steps.
\<close>

theorem action_terminates:
  assumes "t \<in> set task_names" and "exec r = resolve t" and "thread r = Active []"
    and "\<not> done_flag r"
  shows "(\<exists>steps. greet_loop 1 [] = Some steps \<and> length steps = 10)
     \<and> (\<exists>a ops. resolve t = Some a \<and> call a = Some ops
          \<and> (thread (fst ((run_step ^^ Suc (length ops)) (r, w))) = Active [Sleep (binary64 (1 / 5))]
              \<or> (\<exists>e. thread (fst ((run_step ^^ Suc (length ops)) (r, w))) = Raised e))
          \<and> attempts (snd ((run_step ^^ Suc (length ops)) (r, w))) \<le> attempts w + Suc (length ops))"
proof -
  obtain a where a: "resolve t = Some a"
    using assms(1) resolve_None [of t] by auto
  obtain ops where ops: "call a = Some ops"
    using call_total by blast
  let ?r = "r\<lparr>thread := Active (ops @ [Sleep (binary64 (1 / 5))])\<rparr>"
  have one: "run_step (r, w) = (?r, w)"
    using assms a ops by (simp add: run_step_at_test_call)
  from run_steps_progress [of ?r ops "[Sleep (binary64 (1 / 5))]" w]
  obtain r' w' where rest: "(run_step ^^ length ops) (?r, w) = (r', w')"
    "thread r' = Active [Sleep (binary64 (1 / 5))] \<or> (\<exists>e. thread r' = Raised e)"
    by auto
  have "(run_step ^^ Suc (length ops)) (r, w) = (r', w')"
    using one rest(1) by (simp add: funpow_swap1)
  with rest(2) a ops run_steps_attempts [of "Suc (length ops)" r w] show ?thesis
    by (auto simp add: greet_loop_value)
qed

theorem action_terminates_witness:
  "''greet'' \<in> set task_names \<and> exec greet_runner = resolve ''greet''
   \<and> thread greet_runner = Active [] \<and> \<not> done_flag greet_runner
   \<and> (\<exists>a ops. resolve ''greet'' = Some a \<and> call a = Some ops
          \<and> (thread (fst ((run_step ^^ Suc (length ops)) (greet_runner, quiet_world)))
                = Active [Sleep (binary64 (1 / 5))]
              \<or> (\<exists>e. thread (fst ((run_step ^^ Suc (length ops)) (greet_runner, quiet_world)))
                = Raised e)))"
proof -
  have h: "''greet'' \<in> set task_names" "exec greet_runner = resolve ''greet''"
    "thread greet_runner = Active []" "\<not> done_flag greet_runner"
    by (simp_all add: task_names_def greet_runner_def resolve_def)
  from action_terminates [OF h, of quiet_world] h show ?thesis
    by blast
qed

subsection \<open>C3: an unknown task is refused before anything starts\<close>

text \<open>
  Claim C3. For a task outside the enumeration, \<open>__enter__\<close> raises the error and
  leaves the runner and the world as they were: on a new runner the thread is not
  started and no throttle has been written. For a task of the enumeration it does not
  raise that error, and on a new runner it returns normally.
\<close>

theorem invalid_task_raises_before_start:
  "(task r \<notin> set task_names \<longrightarrow> enter (r, w) = (Inl Task_does_not_exist, r, w))
   \<and> (task r \<in> set task_names \<longrightarrow> fst (enter (r, w)) \<noteq> Inl Task_does_not_exist)
   \<and> (t \<notin> set task_names \<longrightarrow>
        enter (init t w) = (Inl Task_does_not_exist, init t w)
        \<and> thread (fst (init t w)) = Unstarted
        \<and> written a (trace (snd (init t w))) = written a (trace w))
   \<and> (t \<in> set task_names \<longrightarrow> fst (enter (init t w)) = Inr ())"
proof -
  have written_app: "\<And>xs l m. written a (xs @ [Log l m]) = written a xs"
  proof -
    fix xs :: "op list" and l m
    show "written a (xs @ [Log l m]) = written a xs"
      by (induction a xs rule: written.induct) simp_all
  qed
  have 1: "task r \<notin> set task_names \<longrightarrow> enter (r, w) = (Inl Task_does_not_exist, r, w)"
    using resolve_None [of "task r"] by (auto simp add: enter_def)
  have 2: "task r \<in> set task_names \<longrightarrow> fst (enter (r, w)) \<noteq> Inl Task_does_not_exist"
    using resolve_None [of "task r"] by (auto simp add: enter_def start_def split: if_splits)
  have 3: "t \<notin> set task_names \<longrightarrow>
        enter (init t w) = (Inl Task_does_not_exist, init t w)
        \<and> thread (fst (init t w)) = Unstarted
        \<and> written a (trace (snd (init t w))) = written a (trace w)"
    using resolve_None [of t] by (auto simp add: enter_def init_def emit_def written_app)
  have 4: "t \<in> set task_names \<longrightarrow> fst (enter (init t w)) = Inr ()"
    using resolve_None [of t] by (auto simp add: enter_def init_def start_def)
  from 1 2 3 4 show ?thesis by blast
qed

theorem invalid_task_raises_before_start_witness:
  "''fly'' \<notin> set task_names
   \<and> enter (init ''fly'' quiet_world) = (Inl Task_does_not_exist, init ''fly'' quiet_world)
   \<and> thread (fst (init ''fly'' quiet_world)) = Unstarted
   \<and> ''dance'' \<in> set task_names
   \<and> fst (enter (init ''dance'' quiet_world)) = Inr ()"
  using invalid_task_raises_before_start [of "fst (init ''fly'' quiet_world)" quiet_world "''fly''" Body]
    invalid_task_raises_before_start [of "fst (init ''dance'' quiet_world)" quiet_world "''dance''" Body]
  by (simp add: task_names_def)

subsection \<open>C4: reset\<close>

text \<open>
  The runner does not treat \<open>reset\<close> apart: left alone for ten steps, with the flag
  unset, the thread has written 0 to each motor twice.
\<close>

theorem reset_repeats_counterexample:
  "written Body (trace (snd ((run_step ^^ 10) (snd (enter (init ''reset'' quiet_world)))))) = [0, 0]
   \<and> written Mouth (trace (snd ((run_step ^^ 10) (snd (enter (init ''reset'' quiet_world)))))) = [0, 0]
   \<and> \<not> done_flag (fst ((run_step ^^ 10) (snd (enter (init ''reset'' quiet_world)))))"
  by (simp add: eval_nat_numeral init_def enter_def start_def resolve_def quiet_world_def
      run_step_def reset_motors_def motor_items_def emit_def)

text \<open>
  Claim C4, as the code has it. One iteration of \<open>reset\<close> writes each motor once, the
  body first, and leaves both throttles at 0 whatever they were, with no sleep between
  the writes. As for every other task, the iteration is followed by the sleep of
  0.2 s and, the flag still unset, starts again.
\<close>

theorem reset_iteration:
  assumes "exec r = Some Reset_motors" and "thread r = Active []" and "\<not> done_flag r"
    and "\<not> fault w (attempts w)" and "\<not> fault w (Suc (attempts w))"
  shows "thread (fst ((run_step ^^ 4) (r, w))) = Active [Sleep (binary64 (1 / 5))]
     \<and> trace (snd ((run_step ^^ 4) (r, w)))
         = trace w @ [Log Debug Resetting_motors, Set_throttle Body 0, Set_throttle Mouth 0]
     \<and> throttle (snd ((run_step ^^ 4) (r, w))) = (\<lambda>a. 0)
     \<and> thread (fst ((run_step ^^ 6) (r, w))) = Active (reset_motors @ [Sleep (binary64 (1 / 5))])"
proof -
  have zero: "(throttle w)(Body := 0, Mouth := 0) = (\<lambda>a. 0)"
  proof
    fix a show "((throttle w)(Body := 0, Mouth := 0)) a = 0"
      by (cases a) simp_all
  qed
  have four: "(run_step ^^ 4) (r, w) =
      (r\<lparr>thread := Active [Sleep (binary64 (1 / 5))]\<rparr>,
       w\<lparr>throttle := (\<lambda>a. 0), attempts := Suc (Suc (attempts w)),
          trace := trace w @ [Log Debug Resetting_motors, Set_throttle Body 0, Set_throttle Mouth 0]\<rparr>)"
    using assms
    by (simp add: eval_nat_numeral run_step_def reset_motors_def motor_items_def emit_def zero)
  have "(run_step ^^ 6) (r, w) = run_step (run_step ((run_step ^^ 4) (r, w)))"
    by (simp add: eval_nat_numeral)
  then have six: "thread (fst ((run_step ^^ 6) (r, w)))
      = Active (reset_motors @ [Sleep (binary64 (1 / 5))])"
    unfolding four using assms by (simp add: run_step_def emit_def)
  from four six show ?thesis
    by simp
qed

theorem reset_iteration_witness:
  "exec reset_runner = Some Reset_motors \<and> thread reset_runner = Active []
   \<and> \<not> done_flag reset_runner
   \<and> \<not> fault quiet_world (attempts quiet_world) \<and> \<not> fault quiet_world (Suc (attempts quiet_world))
   \<and> throttle quiet_world Body = 1 / 2
   \<and> throttle (snd ((run_step ^^ 4) (reset_runner, quiet_world))) = (\<lambda>a. 0)
   \<and> trace (snd ((run_step ^^ 4) (reset_runner, quiet_world)))
       = [Log Debug Resetting_motors, Set_throttle Body 0, Set_throttle Mouth 0]"
  using reset_iteration [of reset_runner quiet_world]
  by (simp add: reset_runner_def quiet_world_def)

subsection \<open>C5: stop and the end of the thread\<close>

text \<open>
  \<open>__exit__\<close> returns while the thread is still running: here before the thread has
  made a step, and in the middle of the first hold of \<open>move_head\<close>.
\<close>

theorem exit_returns_before_thread_counterexample:
  "thread (fst (exit (snd (enter (init ''move_head'' quiet_world))))) = Active [Log Debug Executing]
   \<and> thread (fst (exit (run_schedule [Thread_step, Thread_step, Thread_step, Thread_step, Thread_step]
        (snd (enter (init ''move_head'' quiet_world))))))
      = Active [Log Debug (Releasing_motor 1), Sleep 1, Set_throttle Body (- 1),
                Log Debug (Releasing_motor 1), Sleep 1, Sleep (binary64 (1 / 5))]"
  by (simp add: exit_def stop_def init_def enter_def start_def resolve_def quiet_world_def
      run_step_def emit_def move_head_def run_motor_def release_motor_def)

text \<open>
  Claim C5, as the code has it. \<open>stop\<close>, and \<open>__exit__\<close> which is \<open>stop\<close>, set the flag
  and log; they return without waiting and leave the thread where it is. A running
  thread then ends by itself: after the effects it has left and one test of the flag
  it has returned from \<open>run\<close>, unless an exception ended it before.
\<close>

theorem stop_only_sets_flag:
  "stop (r, w) = (r\<lparr>done_flag := True\<rparr>, w\<lparr>trace := trace w @ [Log Debug Thread_finished]\<rparr>)
   \<and> exit (r, w) = stop (r, w)
   \<and> thread (fst (stop (r, w))) = thread r
   \<and> (thread r = Active ops \<longrightarrow>
        thread (fst ((run_step ^^ Suc (length ops)) (stop (r, w)))) = Exited
        \<or> (\<exists>e. thread (fst ((run_step ^^ Suc (length ops)) (stop (r, w)))) = Raised e))"
proof -
  let ?r = "r\<lparr>done_flag := True\<rparr>"
  let ?w = "w\<lparr>trace := trace w @ [Log Debug Thread_finished]\<rparr>"
  have st: "stop (r, w) = (?r, ?w)"
    by (simp add: stop_def emit_def)
  have "thread (fst ((run_step ^^ Suc (length ops)) (?r, ?w))) = Exited
        \<or> (\<exists>e. thread (fst ((run_step ^^ Suc (length ops)) (?r, ?w))) = Raised e)"
    if act: "thread r = Active ops"
  proof -
    from run_steps_progress [of ?r ops "[]" ?w] act
    obtain r' w' where rest: "(run_step ^^ length ops) (?r, ?w) = (r', w')"
      "thread r' = Active [] \<or> (\<exists>e. thread r' = Raised e)" "done_flag r' = True"
      by auto
    from rest(2) show ?thesis
    proof
      assume "thread r' = Active []"
      then have "run_step (r', w') = (r'\<lparr>thread := Exited\<rparr>, w')"
        using rest(3) by (simp add: run_step_at_test_done)
      then show ?thesis
        using rest(1) by simp
    next
      assume "\<exists>e. thread r' = Raised e"
      then obtain e where e: "thread r' = Raised e" ..
      then have "run_step (r', w') = (r', w')"
        by (simp add: run_step_over)
      then show ?thesis
        using rest(1) e by simp
    qed
  qed
  with st show ?thesis
    by (simp add: exit_def)
qed

theorem stop_only_sets_flag_witness:
  "thread mouth_runner = Active [Set_throttle Mouth (- 1), Sleep 1]
   \<and> thread (fst (stop (mouth_runner, quiet_world))) = Active [Set_throttle Mouth (- 1), Sleep 1]
   \<and> thread (fst ((run_step ^^ 3) (stop (mouth_runner, quiet_world)))) = Exited"
proof -
  have "thread (fst ((run_step ^^ 3) (stop (mouth_runner, quiet_world)))) = Exited"
    by (simp add: eval_nat_numeral stop_def mouth_runner_def quiet_world_def run_step_def emit_def)
  with stop_only_sets_flag [of mouth_runner quiet_world "[Set_throttle Mouth (- 1), Sleep 1]"]
  show ?thesis
    by (simp add: mouth_runner_def)
qed

subsection \<open>C6: throttle values stay in range\<close>

text \<open>
  Claim C6. Start a new runner for any task in a world where no throttle value
  outside \<open>[-1, 1]\<close> has been written. Whatever the order in which the thread steps and
  the caller stops, no throttle value outside \<open>[-1, 1]\<close> is ever written.
\<close>

theorem throttle_always_in_range:
  assumes "\<forall>x\<in>set (trace w). in_range x"
  shows "\<forall>x\<in>set (trace (snd (run_schedule sched (snd (enter (init t w)))))). in_range x"
proof -
  have "all_in_range (run_schedule sched (snd (enter (init t w))))"
    using assms by (simp add: all_in_range_run_schedule all_in_range_enter list_all_iff)
  then show ?thesis
    by (simp add: all_in_range_def list_all_iff split: prod.splits)
qed

theorem throttle_always_in_range_witness:
  "list_all in_range (trace quiet_world)
   \<and> list_all in_range
        (trace (snd (run_schedule [Thread_step, Thread_step, Thread_step, Thread_step, Caller_stop]
          (snd (enter (init ''response'' quiet_world))))))"
  using throttle_always_in_range [of quiet_world
      "[Thread_step, Thread_step, Thread_step, Thread_step, Caller_stop]" "''response''"]
  by (simp add: quiet_world_def list_all_iff)

subsection \<open>C7: the flag is read once per iteration\<close>

text \<open>
  Claim C7. Once the flag is set, a thread with effects left in its iteration performs
  all of them, in order and to the last sleep, provided no throttle write fails; the
  next test of the flag ends it, and from then on it does nothing.
\<close>

theorem cancellation_finishes_iteration:
  assumes "done_flag r" and "thread r = Active ops" and "\<forall>n\<ge>attempts w. \<not> fault w n"
  shows "\<exists>w'. (run_step ^^ Suc (length ops)) (r, w) = (r\<lparr>thread := Exited\<rparr>, w')
            \<and> trace w' = trace w @ ops
            \<and> (\<forall>n. (run_step ^^ n) (r\<lparr>thread := Exited\<rparr>, w') = (r\<lparr>thread := Exited\<rparr>, w'))"
proof -
  from run_steps_effects [of r ops "[]" w] assms
  obtain w' where w': "(run_step ^^ length ops) (r, w) = (r\<lparr>thread := Active []\<rparr>, w')"
    "trace w' = trace w @ ops"
    by auto
  have "run_step (r\<lparr>thread := Active []\<rparr>, w') = (r\<lparr>thread := Exited\<rparr>, w')"
    using assms(1) by (simp add: run_step_at_test_done)
  then have "(run_step ^^ Suc (length ops)) (r, w) = (r\<lparr>thread := Exited\<rparr>, w')"
    using w'(1) by simp
  moreover have "\<forall>n. (run_step ^^ n) (r\<lparr>thread := Exited\<rparr>, w') = (r\<lparr>thread := Exited\<rparr>, w')"
    by (simp add: run_steps_over)
  ultimately show ?thesis
    using w'(2) by blast
qed

theorem cancellation_finishes_iteration_witness:
  "done_flag head_runner \<and> thread head_runner = Active [Set_throttle Body (- 1), Sleep 1]
   \<and> \<not> fault quiet_world 0 \<and> \<not> fault quiet_world 1
   \<and> (\<exists>w'. (run_step ^^ 3) (head_runner, quiet_world) = (head_runner\<lparr>thread := Exited\<rparr>, w')
           \<and> trace w' = [Set_throttle Body (- 1), Sleep 1])"
  using cancellation_finishes_iteration
    [of head_runner "[Set_throttle Body (- 1), Sleep 1]" quiet_world]
  by (auto simp add: head_runner_def quiet_world_def numeral_3_eq_3)

subsection \<open>C8: an exception in the thread\<close>

text \<open>
  Claim C8. A throttle write on which the motor library fails raises in the thread;
  so does the loop when \<open>self.exec\<close> was never set. Whenever the next effect of the
  thread raises, with the flag set or not, the handler of \<open>run\<close> logs the exception as
  an error and raises it again: the thread is over, and the error record is all that
  the step adds to what was done. The thread makes no later step, and whatever the
  caller and the thread do from then on, no throttle is written or changed: no second
  attempt, no corrective write.
\<close>

theorem error_is_logged_and_raised:
  "(fault w (attempts w) \<longrightarrow> fst (perform (Set_throttle b v) w) = Inl Motor_failure)
   \<and> (thread r = Active (x # xs) \<and> fst (perform x w) = Inl e \<longrightarrow>
         thread (fst (run_step (r, w))) = Raised e
       \<and> trace (snd (run_step (r, w))) = trace w @ [Log Error (Exception_text e)]
       \<and> (run_step ^^ n) (run_step (r, w)) = run_step (r, w)
       \<and> thread (fst (run_schedule sched (run_step (r, w)))) = Raised e
       \<and> written a (trace (snd (run_schedule sched (run_step (r, w))))) = written a (trace w)
       \<and> throttle (snd (run_schedule sched (run_step (r, w)))) = throttle w)
   \<and> (thread r = Active [] \<and> \<not> done_flag r \<and> exec r = None \<longrightarrow>
         thread (fst (run_step (r, w))) = Raised No_exec
       \<and> trace (snd (run_step (r, w))) = trace w @ [Log Error (Exception_text No_exec)]
       \<and> (run_step ^^ n) (run_step (r, w)) = run_step (r, w)
       \<and> thread (fst (run_schedule sched (run_step (r, w)))) = Raised No_exec
       \<and> written a (trace (snd (run_schedule sched (run_step (r, w))))) = written a (trace w)
       \<and> throttle (snd (run_schedule sched (run_step (r, w)))) = throttle w)"
proof -
  have w1: "fault w (attempts w) \<longrightarrow> fst (perform (Set_throttle b v) w) = Inl Motor_failure"
    by simp
  have w2: "thread r = Active (x # xs) \<and> fst (perform x w) = Inl e \<longrightarrow>
         thread (fst (run_step (r, w))) = Raised e
       \<and> trace (snd (run_step (r, w))) = trace w @ [Log Error (Exception_text e)]
       \<and> (run_step ^^ n) (run_step (r, w)) = run_step (r, w)
       \<and> thread (fst (run_schedule sched (run_step (r, w)))) = Raised e
       \<and> written a (trace (snd (run_schedule sched (run_step (r, w))))) = written a (trace w)
       \<and> throttle (snd (run_schedule sched (run_step (r, w)))) = throttle w"
  proof
    assume h: "thread r = Active (x # xs) \<and> fst (perform x w) = Inl e"
    then have one: "run_step (r, w)
        = (r\<lparr>thread := Raised e\<rparr>, emit (Log Error (Exception_text e)) (snd (perform x w)))"
      by (simp add: run_step_raise)
    from h have "trace (snd (perform x w)) = trace w" "throttle (snd (perform x w)) = throttle w"
      by (simp_all add: perform_failure)
    then show "thread (fst (run_step (r, w))) = Raised e
       \<and> trace (snd (run_step (r, w))) = trace w @ [Log Error (Exception_text e)]
       \<and> (run_step ^^ n) (run_step (r, w)) = run_step (r, w)
       \<and> thread (fst (run_schedule sched (run_step (r, w)))) = Raised e
       \<and> written a (trace (snd (run_schedule sched (run_step (r, w))))) = written a (trace w)
       \<and> throttle (snd (run_schedule sched (run_step (r, w)))) = throttle w"
      by (rule raise_outcome [OF one])
  qed
  have w3: "thread r = Active [] \<and> \<not> done_flag r \<and> exec r = None \<longrightarrow>
         thread (fst (run_step (r, w))) = Raised No_exec
       \<and> trace (snd (run_step (r, w))) = trace w @ [Log Error (Exception_text No_exec)]
       \<and> (run_step ^^ n) (run_step (r, w)) = run_step (r, w)
       \<and> thread (fst (run_schedule sched (run_step (r, w)))) = Raised No_exec
       \<and> written a (trace (snd (run_schedule sched (run_step (r, w))))) = written a (trace w)
       \<and> throttle (snd (run_schedule sched (run_step (r, w)))) = throttle w"
  proof
    assume h: "thread r = Active [] \<and> \<not> done_flag r \<and> exec r = None"
    then have one: "run_step (r, w)
        = (r\<lparr>thread := Raised No_exec\<rparr>, emit (Log Error (Exception_text No_exec)) w)"
      by (simp add: run_step_def raise_in_run_def)
    show "thread (fst (run_step (r, w))) = Raised No_exec
       \<and> trace (snd (run_step (r, w))) = trace w @ [Log Error (Exception_text No_exec)]
       \<and> (run_step ^^ n) (run_step (r, w)) = run_step (r, w)
       \<and> thread (fst (run_schedule sched (run_step (r, w)))) = Raised No_exec
       \<and> written a (trace (snd (run_schedule sched (run_step (r, w))))) = written a (trace w)
       \<and> throttle (snd (run_schedule sched (run_step (r, w)))) = throttle w"
      by (rule raise_outcome [OF one]) simp_all
  qed
  from w1 w2 w3 show ?thesis
    by (intro conjI)
qed

theorem error_is_logged_and_raised_witness:
  "fault failing_world (attempts failing_world)
   \<and> done_flag head_runner
   \<and> thread head_runner = Active [Set_throttle Body (- 1), Sleep 1]
   \<and> fst (perform (Set_throttle Body (- 1)) failing_world) = Inl Motor_failure
   \<and> thread (fst (run_step (head_runner, failing_world))) = Raised Motor_failure
   \<and> trace (snd (run_step (head_runner, failing_world)))
       = [Log Error (Exception_text Motor_failure)]
   \<and> (run_step ^^ 3) (run_step (head_runner, failing_world)) = run_step (head_runner, failing_world)
   \<and> written Body (trace (snd (run_schedule [Thread_step, Caller_stop, Thread_step]
        (run_step (head_runner, failing_world))))) = []
   \<and> thread unentered_runner = Active [] \<and> \<not> done_flag unentered_runner
   \<and> exec unentered_runner = None
   \<and> thread (fst (run_step (unentered_runner, quiet_world))) = Raised No_exec
   \<and> trace (snd (run_step (unentered_runner, quiet_world)))
       = [Log Error (Exception_text No_exec)]"
proof -
  have f: "fault failing_world (attempts failing_world)"
    by (simp add: failing_world_def)
  have h: "thread head_runner = Active [Set_throttle Body (- 1), Sleep 1]" "done_flag head_runner"
    by (simp_all add: head_runner_def)
  have u: "thread unentered_runner = Active []" "\<not> done_flag unentered_runner"
    "exec unentered_runner = None"
    by (simp_all add: unentered_runner_def)
  have t0: "trace failing_world = []" "trace quiet_world = []"
    by (simp_all add: failing_world_def quiet_world_def)
  from error_is_logged_and_raised
    [of failing_world Body "- 1" head_runner "Set_throttle Body (- 1)" "[Sleep 1]" Motor_failure
      3 "[Thread_step, Caller_stop, Thread_step]" Body]
    error_is_logged_and_raised
    [of quiet_world Body "- 1" unentered_runner "Set_throttle Body (- 1)" "[Sleep 1]" Motor_failure
      3 "[Thread_step, Caller_stop, Thread_step]" Body]
    f h u t0
  show ?thesis
    by simp
qed

subsection \<open>C9: stop on a stopped runner\<close>

text \<open>
  Claim C9. \<open>stop\<close> on a runner whose flag is set does not raise and leaves the runner
  as it is, flag set; only the debug record of the call is logged.
\<close>

theorem stop_when_stopped:
  "done_flag r \<Longrightarrow> stop (r, w) = (r, w\<lparr>trace := trace w @ [Log Debug Thread_finished]\<rparr>)"
  by (simp add: stop_def emit_def)

theorem stop_when_stopped_witness:
  "done_flag stopped_runner
   \<and> stop (stopped_runner, quiet_world)
       = (stopped_runner, quiet_world\<lparr>trace := [Log Debug Thread_finished]\<rparr>)"
  using stop_when_stopped [of stopped_runner quiet_world]
  by (simp add: stopped_runner_def quiet_world_def)

subsection \<open>C10: the constructor does not look at the task\<close>

text \<open>
  Claim C10. \<open>__init__\<close> returns a runner for every task string, with the task stored,
  the flag unset and no thread started. The error for an unknown task comes from
  \<open>__enter__\<close>, exactly for the strings outside the enumeration.
\<close>

theorem construction_does_not_validate:
  "init t w = (\<lparr>task = t, done_flag = False, exec = None, thread = Unstarted\<rparr>,
               w\<lparr>trace := trace w @ [Log Info Thread_initialized]\<rparr>)
   \<and> (fst (enter (init t w)) = Inl Task_does_not_exist \<longleftrightarrow> t \<notin> set task_names)"
  using resolve_None [of t]
  by (auto simp add: init_def emit_def enter_def start_def)

end
